theory Spec2Isabelle
  imports Main "HOL-Library.Word"
begin

section \<open>Strings of the reader: UTF-16 code units\<close>

text \<open>
  A JavaScript string is a sequence of 16-bit code units. The regular expression class
  \<^verbatim>\<open>\s\<close> and \<^verbatim>\<open>String.prototype.trim\<close> use the same set of code units:
  the ECMAScript white space and line terminator characters.
\<close>

type_synonym code_unit = "16 word"
type_synonym jsstring = "code_unit list"

definition is_space :: "code_unit \<Rightarrow> bool" where
  "is_space c \<longleftrightarrow>
     c = 0x0009 \<or> c = 0x000A \<or> c = 0x000B \<or> c = 0x000C \<or> c = 0x000D \<or> c = 0x0020 \<or>
     c = 0x00A0 \<or> c = 0x1680 \<or> (0x2000 \<le> c \<and> c \<le> 0x200A) \<or> c = 0x2028 \<or>
     c = 0x2029 \<or> c = 0x202F \<or> c = 0x205F \<or> c = 0x3000 \<or> c = 0xFEFF"

text \<open>A string literal of the source, all of whose characters are ASCII.\<close>

definition str :: "string \<Rightarrow> jsstring" where
  "str s = map of_char s"

section \<open>The paginator\<close>

text \<open>\<^verbatim>\<open>const WORDS_PER_PAGE = 275;\<close>\<close>

definition WORDS_PER_PAGE :: nat where
  "WORDS_PER_PAGE = 275"

text \<open>
  \<^verbatim>\<open>text.split(/\s+/)\<close>: the separator matches a maximal run of white space. The
  text before the next match is one element; when there is no further match the rest of
  the string is the last element. So a string that starts or ends with white space gives
  an empty first or last element, and the empty string gives one empty element.
\<close>

function split_ws :: "jsstring \<Rightarrow> jsstring list" where
  "split_ws s =
     (let tok = takeWhile (\<lambda>c. \<not> is_space c) s;
          rest = dropWhile (\<lambda>c. \<not> is_space c) s
      in if rest = [] then [tok] else tok # split_ws (dropWhile is_space rest))"
  by pat_completeness auto
termination
proof (relation "measure length")
  show "wf (measure length)" by simp
next
  fix s :: jsstring and tok rest
  assume rest: "rest = dropWhile (\<lambda>c. \<not> is_space c) s" and ne: "rest \<noteq> []"
  from ne obtain c cs where cons: "rest = c # cs" by (cases rest) auto
  have "dropWhile (\<lambda>c. \<not> is_space c) s \<noteq> []" using rest ne by simp
  from hd_dropWhile [OF this] have "is_space (hd rest)" unfolding rest by simp
  then have "is_space c" unfolding cons by simp
  then have "length (dropWhile is_space rest) \<le> length cs"
    using cons by (simp add: length_dropWhile_le)
  moreover have "length rest \<le> length s" using rest by (simp add: length_dropWhile_le)
  ultimately show "(dropWhile is_space rest, s) \<in> measure length"
    using cons by simp
qed

declare split_ws.simps [simp del]

text \<open>\<^verbatim>\<open>.filter(Boolean)\<close>: the empty string is the only falsy string.\<close>

definition filter_Boolean :: "jsstring list \<Rightarrow> jsstring list" where
  "filter_Boolean xs = filter (\<lambda>w. w \<noteq> []) xs"

text \<open>\<^verbatim>\<open>arr.slice(from, to)\<close> for indices that are not negative.\<close>

definition slice :: "'a list \<Rightarrow> nat \<Rightarrow> nat \<Rightarrow> 'a list" where
  "slice xs from to = take (to - from) (drop from xs)"

text \<open>\<^verbatim>\<open>arr.join(sep)\<close>\<close>

fun join :: "jsstring \<Rightarrow> jsstring list \<Rightarrow> jsstring" where
  "join sep [] = []"
| "join sep [x] = x"
| "join sep (x # y # ys) = x @ sep @ join sep (y # ys)"

text \<open>
  The loop of \<^verbatim>\<open>getPages\<close>:
  \<^verbatim>\<open>for (let i = 0; i < words.length; i += WORDS_PER_PAGE)
    result.push(words.slice(i, i + WORDS_PER_PAGE).join(" "));\<close>
\<close>

function getPages_loop :: "jsstring list \<Rightarrow> nat \<Rightarrow> jsstring list \<Rightarrow> jsstring list" where
  "getPages_loop words i result =
     (if i < length words
      then getPages_loop words (i + WORDS_PER_PAGE)
             (result @ [join (str '' '') (slice words i (i + WORDS_PER_PAGE))])
      else result)"
  by pat_completeness auto
termination
  by (relation "measure (\<lambda>(words, i, result). length words - i)")
     (auto simp: WORDS_PER_PAGE_def)

declare getPages_loop.simps [simp del]

text \<open>
  The three copies of the paginator differ in the placeholder only
  (\<^verbatim>\<open>return result.length > 0 ? result : [placeholder]\<close>).
\<close>

definition words_of :: "jsstring \<Rightarrow> jsstring list" where
  "words_of text = filter_Boolean (split_ws text)"

definition paginate :: "jsstring \<Rightarrow> jsstring \<Rightarrow> jsstring list" where
  "paginate placeholder text =
     (let words = words_of text;
          result = getPages_loop words 0 []
      in if length result > 0 then result else [placeholder])"

text \<open>\<^verbatim>\<open>getPages\<close> of src/App.jsx, line 232.\<close>

definition getPages :: "jsstring \<Rightarrow> jsstring list" where
  "getPages text =
     paginate (str ''(Vault empty. Sign in and upload a manuscript to begin analysis.)'') text"

text \<open>\<^verbatim>\<open>getPages\<close> of the second \<^verbatim>\<open>App\<close> of src/App.jsx, line 1115.\<close>

definition getPages2 :: "jsstring \<Rightarrow> jsstring list" where
  "getPages2 text = paginate (str ''(Vault empty. Sign in to upload document.)'') text"

text \<open>\<^verbatim>\<open>pages\<close> (a \<^verbatim>\<open>useMemo\<close> over \<^verbatim>\<open>text\<close>) of part_000, line 166.\<close>

definition pages :: "jsstring \<Rightarrow> jsstring list" where
  "pages text =
     paginate (str ''No manuscript loaded. Use the Library to upload a PDF or start writing.'') text"

text \<open>The page the loop pushes in its \<open>k\<close>-th round, where \<open>i = k * WORDS_PER_PAGE\<close>.\<close>

definition page_at :: "jsstring list \<Rightarrow> nat \<Rightarrow> jsstring" where
  "page_at words k =
     join (str '' '') (slice words (k * WORDS_PER_PAGE) (k * WORDS_PER_PAGE + WORDS_PER_PAGE))"

section \<open>Scrolling to a saved page\<close>

text \<open>
  A number read back from a store: \<^verbatim>\<open>Number(localStorage.getItem(key))\<close> or a
  numeric field of a stored record. \<open>None\<close> stands for \<^verbatim>\<open>NaN\<close> and for a
  missing field; the application stores whole numbers only. \<open>or0 v\<close> is
  \<^verbatim>\<open>v || 0\<close>.
\<close>

definition or0 :: "int option \<Rightarrow> int" where
  "or0 v = (case v of None \<Rightarrow> 0 | Some n \<Rightarrow> n)"

text \<open>
  \<^verbatim>\<open>scrollToPage(index)\<close> looks up the element \<^verbatim>\<open>page-${index}\<close> and scrolls
  to it if it exists. When the component renders the reader there is one such element for
  each index of \<^verbatim>\<open>pages\<close>; when it returns the loading screen there is none.
  \<open>mounted\<close> says which of the two holds at the moment \<^verbatim>\<open>scrollToPage\<close>
  runs. The result is the page scrolled to, \<open>None\<close> when nothing happens.
\<close>

definition scrollToPage :: "bool \<Rightarrow> nat \<Rightarrow> int \<Rightarrow> int option" where
  "scrollToPage mounted pageCount index =
     (if mounted \<and> 0 \<le> index \<and> index < int pageCount then Some index else None)"


definition reader_shown2 :: "bool \<Rightarrow> bool \<Rightarrow> bool" where
  "reader_shown2 authLoading restoringSession \<longleftrightarrow> \<not> (authLoading \<or> restoringSession)"


text \<open>
  part_000, line 197 (\<^emph>\<open>Restore Last Visited Page\<close>):
  \<^verbatim>\<open>if (pages.length > 0 && isInitialLoad.current) {
    const savedPage = Number(localStorage.getItem('nq_page')) || 0;
    const safePage = Math.min(savedPage, pages.length - 1);
    setTimeout(() => { scrollToPage(safePage); isInitialLoad.current = false; }, 800); }\<close>
  \<open>safePage\<close> is the argument the timer passes to \<^verbatim>\<open>scrollToPage\<close>;
  \<open>mounted\<close> is taken at the time the timer fires, 800 ms after the effect. The timer
  clears \<^verbatim>\<open>isInitialLoad.current\<close> whether it scrolled or not, and the effect runs
  again only when \<^verbatim>\<open>pages\<close> changes.
\<close>

definition safePage :: "int option \<Rightarrow> nat \<Rightarrow> int" where
  "safePage nq_page pageCount = (let savedPage = or0 nq_page in min savedPage (int pageCount - 1))"

definition restoreLastVisitedPage :: "bool \<Rightarrow> int option \<Rightarrow> nat \<Rightarrow> bool \<Rightarrow> int option" where
  "restoreLastVisitedPage isInitialLoad nq_page pageCount mounted =
     (if pageCount > 0 \<and> isInitialLoad
      then scrollToPage mounted pageCount (safePage nq_page pageCount)
      else None)"

text \<open>
  Second \<^verbatim>\<open>App\<close> of src/App.jsx, line 1198, an effect with the dependency
  \<^verbatim>\<open>[pages.length]\<close>:
  \<^verbatim>\<open>if (!pages.length) return;
  const safeIndex = Math.min(currentPage, pages.length - 1);
  setTimeout(() => scrollToPage(safeIndex), 300);\<close>
  \<open>mounted\<close> is taken at the time the timer fires, 300 ms after the effect.
\<close>

definition safeIndex :: "int \<Rightarrow> nat \<Rightarrow> int" where
  "safeIndex currentPage pageCount = min currentPage (int pageCount - 1)"

definition autoScroll :: "int \<Rightarrow> nat \<Rightarrow> bool \<Rightarrow> int option" where
  "autoScroll currentPage pageCount mounted =
     (if pageCount = 0 then None
      else scrollToPage mounted pageCount (safeIndex currentPage pageCount))"


section \<open>Uploading a PDF\<close>

text \<open>
  What pdf.js gives for an uploaded file: the pages in order, each with the strings of
  its text items; \<open>None\<close> for a page whose \<^verbatim>\<open>getPage\<close> or
  \<^verbatim>\<open>getTextContent\<close> rejects. \<^verbatim>\<open>pdf.numPages\<close> is the length of the list.
\<close>

type_synonym pdf_page = "jsstring list option"
type_synonym pdf = "pdf_page list"

text \<open>
  \<^verbatim>\<open>for (let i = 1; i <= Math.min(pdf.numPages, cap); i++) {
    const page = await pdf.getPage(i);
    const textContent = await page.getTextContent();
    fullText += textContent.items.map(item => item.str).join(' ') + '\n'; }\<close>
  A rejected promise leaves the loop through the \<^verbatim>\<open>catch\<close>: the result is
  \<open>None\<close>.
\<close>

function extract_loop :: "nat \<Rightarrow> pdf \<Rightarrow> nat \<Rightarrow> jsstring \<Rightarrow> jsstring option" where
  "extract_loop cap pdf i fullText =
     (if i \<le> min (length pdf) cap
      then (case pdf ! (i - 1) of
              None \<Rightarrow> None
            | Some items \<Rightarrow>
                extract_loop cap pdf (i + 1) (fullText @ join (str '' '') items @ [0x0A]))
      else Some fullText)"
  by pat_completeness auto
termination
  by (relation "measure (\<lambda>(cap, pdf, i, fullText). Suc (min (length pdf) cap) - i)") auto

declare extract_loop.simps [simp del]

datatype upload_result =
    NotReady          \<comment> \<open>the guard at the top returned (a notification only)\<close>
  | NoFile            \<comment> \<open>no file chosen\<close>
  | Failed            \<comment> \<open>the \<^verbatim>\<open>catch\<close> branch: nothing stored\<close>
  | Stored jsstring   \<comment> \<open>the content stored with \<^verbatim>\<open>addDoc\<close> and set as \<^verbatim>\<open>text\<close>\<close>

text \<open>
  \<^verbatim>\<open>handleFileUpload\<close> of the second \<^verbatim>\<open>App\<close> of src/App.jsx, line 1257. The
  file is \<open>None\<close> when none was chosen, \<open>Some None\<close> when pdf.js cannot open it.
  \<open>addDoc_ok\<close> says whether the write to the document store succeeds.
\<close>

definition handleFileUpload :: "bool \<Rightarrow> bool \<Rightarrow> pdf option option \<Rightarrow> bool \<Rightarrow> upload_result" where
  "handleFileUpload user isPdfLibReady file addDoc_ok =
     (if \<not> user \<or> \<not> isPdfLibReady then NotReady
      else case file of
        None \<Rightarrow> NoFile
      | Some None \<Rightarrow> Failed
      | Some (Some pdf) \<Rightarrow>
          (case extract_loop 50 pdf 1 [] of
             None \<Rightarrow> Failed
           | Some fullText \<Rightarrow> if addDoc_ok then Stored fullText else Failed))"

text \<open>\<^verbatim>\<open>handleFileUpload\<close> of part_000, line 261: one guard, and a cap of 100 pages.\<close>

definition handleFileUpload_part0 :: "bool \<Rightarrow> bool \<Rightarrow> pdf option option \<Rightarrow> bool \<Rightarrow> upload_result" where
  "handleFileUpload_part0 user isPdfReady file addDoc_ok =
     (case file of
        None \<Rightarrow> NotReady
      | Some parsed \<Rightarrow>
          if \<not> user \<or> \<not> isPdfReady then NotReady
          else (case parsed of
             None \<Rightarrow> Failed
           | Some pdf \<Rightarrow>
               (case extract_loop 100 pdf 1 [] of
                  None \<Rightarrow> Failed
                | Some fullText \<Rightarrow> if addDoc_ok then Stored fullText else Failed)))"

section \<open>The rate limiter of the second App\<close>

text \<open>\<^verbatim>\<open>const AI_CALL_DELAY = 1500; // Minimum 1.5 seconds between API calls\<close>\<close>

definition AI_CALL_DELAY :: int where
  "AI_CALL_DELAY = 1500"

text \<open>\<^verbatim>\<open>s.trim()\<close>\<close>

definition trim :: "jsstring \<Rightarrow> jsstring" where
  "trim s = rev (dropWhile is_space (rev (dropWhile is_space s)))"

text \<open>The two state variables \<^verbatim>\<open>callAi\<close> reads and sets.\<close>

record ai_state =
  lastAiCall :: int
  nextCallAvailable :: int

datatype ai_result =
    RateLimited int   \<comment> \<open>\<^verbatim>\<open>Please wait N seconds before making another request.\<close>\<close>
  | MissingKey        \<comment> \<open>\<^verbatim>\<open>Error: API key is missing.\<close>\<close>
  | NoDocument        \<comment> \<open>\<^verbatim>\<open>Please load a document before asking questions.\<close>\<close>
  | Requested         \<comment> \<open>the \<^verbatim>\<open>fetch\<close> to the generative API is made\<close>

text \<open>
  \<^verbatim>\<open>callAi\<close>, src/App.jsx line 975, up to the \<^verbatim>\<open>fetch\<close>; \<open>now\<close> is
  \<^verbatim>\<open>Date.now()\<close> in milliseconds. \<^verbatim>\<open>Math.ceil(waitMs / 1000)\<close> is written with the
  integer division of HOL, which rounds down.
\<close>

definition callAi :: "jsstring \<Rightarrow> jsstring \<Rightarrow> int \<Rightarrow> ai_state \<Rightarrow> ai_result \<times> ai_state" where
  "callAi GEMINI_API_KEY text now s =
     (let timeSinceLastCall = now - lastAiCall s in
      if timeSinceLastCall < AI_CALL_DELAY then
        (let waitMs = AI_CALL_DELAY - timeSinceLastCall;
             waitSec = - ((- waitMs) div 1000)
         in (RateLimited waitSec, s\<lparr>nextCallAvailable := waitSec\<rparr>))
      else if GEMINI_API_KEY = [] then (MissingKey, s)
      else if trim text = [] then (NoDocument, s)
      else (Requested, s\<lparr>lastAiCall := now\<rparr>))"

text \<open>Invocations one after the other, each seeing the state the one before left.\<close>

fun callAi_seq :: "jsstring \<Rightarrow> jsstring \<Rightarrow> int list \<Rightarrow> ai_state \<Rightarrow> ai_result list" where
  "callAi_seq key text [] s = []"
| "callAi_seq key text (now # later) s =
     (case callAi key text now s of (r, s') \<Rightarrow> r # callAi_seq key text later s')"

section \<open>The position auto-save of the first App\<close>

text \<open>
  The state of the first \<^verbatim>\<open>App\<close> of src/App.jsx that the auto-save effect
  (line 304) depends on, the timer it has pending, and the remote writes issued so far.
  Time is in milliseconds. Document ids are the ids the document store gives
  (\<open>None\<close> is \<^verbatim>\<open>null\<close>).
\<close>

type_synonym doc_id = string

text \<open>
  The record written to \<^verbatim>\<open>settings/lastPosition\<close>; its \<^verbatim>\<open>timestamp\<close> is the
  time of the write.
\<close>

record position =
  docId :: doc_id
  docName :: jsstring
  page :: int

text \<open>
  A \<^verbatim>\<open>setDoc\<close> call as the log keeps it. \<open>active_doc\<close> is not part of the write:
  it records which document was current when the call was made.
\<close>

record remote_write =
  fired_at :: nat
  written :: position
  active_doc :: "doc_id option"

record session =
  clock :: nat
  user :: bool
  currentDocId :: "doc_id option"
  currentDocName :: jsstring
  currentPage :: int
  isRestoring :: bool
  timer :: "(nat \<times> position) option"
  writes :: "remote_write list"














section \<open>Loading a session: the local and the remote store\<close>

text \<open>
  The document store holds the user's sources, each under its id (\<^verbatim>\<open>getDoc\<close> is
  \<open>map_of\<close>); the settings document
  \<^verbatim>\<open>settings/lastPosition\<close> holds the position the first \<^verbatim>\<open>App\<close> writes. A field
  that is missing is \<open>None\<close>.
\<close>

record source_doc =
  src_content :: jsstring
  src_name :: jsstring

record saved_position =
  pos_docId :: "doc_id option"
  pos_page :: "int option"

record remote_store =
  sources :: "(doc_id \<times> source_doc) list"
  lastPosition :: "saved_position option"

text \<open>
  The keys of \<^verbatim>\<open>localStorage\<close> the second \<^verbatim>\<open>App\<close> reads when it starts
  (\<open>None\<close>: the key is absent). \<open>novelQuestCurrentPage\<close> is the number the stored
  string stands for, \<open>None\<close> when there is none.
\<close>

record local_store =
  novelQuestText :: "jsstring option"
  novelQuestCurrentDocId :: "doc_id option"
  novelQuestCurrentPage :: "int option"

text \<open>The state of the reader: the text, the id of its document and the current page.\<close>

record reader =
  r_text :: jsstring
  r_docId :: "doc_id option"
  r_page :: int

datatype restore_action =
    NoRestore
  | RestoreDoc doc_id jsstring int
      \<comment> \<open>\<^verbatim>\<open>setCurrentDocId\<close>, \<^verbatim>\<open>setText\<close>, and the argument of \<^verbatim>\<open>scrollToPage\<close>\<close>

text \<open>
  The first \<^verbatim>\<open>App\<close>, src/App.jsx line 272: the listener on the saved position,
  called with every snapshot of \<^verbatim>\<open>settings/lastPosition\<close>.
  \<^verbatim>\<open>if (snap.exists()) { const data = snap.data(); ...
    if (isRestoring && data.docId && !currentDocId) {
      const docSnap = await getDoc(docRef);
      if (docSnap.exists()) { setText(String(src.content || "")); ...
        setCurrentDocId(data.docId);
        setTimeout(() => scrollToPage(data.page || 0), 800); } } }\<close>
  The listener is created by an effect with the dependency \<^verbatim>\<open>[user]\<close>, so the
  \<^verbatim>\<open>isRestoring\<close> and \<^verbatim>\<open>currentDocId\<close> it tests are the values of the render
  in which the user signed in (\<open>captured_restoring\<close>, \<open>captured_doc\<close>), not the
  values at the time of the snapshot. This \<^verbatim>\<open>App\<close> reads nothing from
  \<^verbatim>\<open>localStorage\<close>.
\<close>

definition restorePosition :: "bool \<Rightarrow> doc_id option \<Rightarrow> remote_store \<Rightarrow> restore_action" where
  "restorePosition captured_restoring captured_doc remote =
     (case lastPosition remote of
        None \<Rightarrow> NoRestore
      | Some data \<Rightarrow>
          (case pos_docId data of
             None \<Rightarrow> NoRestore
           | Some d \<Rightarrow>
               if captured_restoring \<and> d \<noteq> [] \<and> (captured_doc = None \<or> captured_doc = Some [])
               then (case map_of (sources remote) d of
                       None \<Rightarrow> NoRestore
                     | Some src \<Rightarrow> RestoreDoc d (src_content src) (or0 (pos_page data)))
               else NoRestore))"

text \<open>
  The second \<^verbatim>\<open>App\<close>, src/App.jsx lines 865 to 898: the initial state, read from
  \<^verbatim>\<open>localStorage\<close>.
  \<^verbatim>\<open>localStorage.getItem('novelQuestText') || ""\<close>,
  \<^verbatim>\<open>saved && saved !== '' ? saved : null\<close>,
  \<^verbatim>\<open>saved ? Number(saved) || 0 : 0\<close>.
\<close>

definition initial_reader :: "local_store \<Rightarrow> reader" where
  "initial_reader local =
     \<lparr>r_text = (case novelQuestText local of None \<Rightarrow> [] | Some t \<Rightarrow> t),
      r_docId = (case novelQuestCurrentDocId local of
                   None \<Rightarrow> None
                 | Some d \<Rightarrow> if d \<noteq> [] then Some d else None),
      r_page = or0 (novelQuestCurrentPage local)\<rparr>"

text \<open>
  Line 1160 (\<^emph>\<open>RESTORE SESSION\<close>): the text of the document whose id was saved locally is
  fetched from the document store.
  \<^verbatim>\<open>if (isAuthLoading || isRestoringSession || !user || !currentDocId) return;
  getDoc(docRef).then(docSnap => { if (docSnap.exists()) { setText(data.content || ""); ...\<close>
\<close>

definition restoreSession :: "bool \<Rightarrow> remote_store \<Rightarrow> reader \<Rightarrow> reader" where
  "restoreSession signed_in remote r =
     (case r_docId r of
        None \<Rightarrow> r
      | Some d \<Rightarrow>
          if \<not> signed_in then r
          else (case map_of (sources remote) d of
                  None \<Rightarrow> r
                | Some src \<Rightarrow> r\<lparr>r_text := src_content src\<rparr>))"

text \<open>
  The scroll the effect of line 1198 makes for a state of the reader (see
  \<open>autoScroll\<close>), and a session load as a whole: the state after the restore of line
  1160, and the scroll of the timer set when the component mounts. That timer holds the
  page and the number of pages of the initial state, read from \<^verbatim>\<open>localStorage\<close>;
  \<open>mounted\<close> says whether the reader is rendered when it fires. The effect runs again
  only when the number of pages changes.
\<close>

definition scroll_target :: "reader \<Rightarrow> bool \<Rightarrow> int option" where
  "scroll_target r mounted = autoScroll (r_page r) (length (getPages2 (r_text r))) mounted"

definition load_session ::
  "local_store \<Rightarrow> bool \<Rightarrow> remote_store \<Rightarrow> bool \<Rightarrow> reader \<times> int option" where
  "load_session local signed_in remote mounted =
     (let r0 = initial_reader local
      in (restoreSession signed_in remote r0, scroll_target r0 mounted))"

text \<open>
  part_000: the keys of \<^verbatim>\<open>localStorage\<close> it reads when it starts (lines 62 to 65),
  \<^verbatim>\<open>localStorage.getItem('nq_text') || ""\<close>,
  \<^verbatim>\<open>localStorage.getItem('nq_doc_id') || null\<close>,
  \<^verbatim>\<open>Number(localStorage.getItem('nq_page')) || 0\<close>,
  and its session load: the initial state and the scroll of \<open>restoreLastVisitedPage\<close>.
  It reads neither a document nor a position from the remote store when it starts.
\<close>

record local_store_part0 =
  nq_text :: "jsstring option"
  nq_doc_id :: "doc_id option"
  nq_page :: "int option"

definition initial_reader_part0 :: "local_store_part0 \<Rightarrow> reader" where
  "initial_reader_part0 local =
     \<lparr>r_text = (case nq_text local of None \<Rightarrow> [] | Some t \<Rightarrow> t),
      r_docId = (case nq_doc_id local of
                   None \<Rightarrow> None
                 | Some d \<Rightarrow> if d \<noteq> [] then Some d else None),
      r_page = or0 (nq_page local)\<rparr>"

definition load_session_part0 :: "local_store_part0 \<Rightarrow> bool \<Rightarrow> reader \<times> int option" where
  "load_session_part0 local mounted =
     (let r0 = initial_reader_part0 local
      in (r0, restoreLastVisitedPage True (nq_page local) (length (pages (r_text r0))) mounted))"

section \<open>The reader of the second App while reading\<close>

text \<open>
  The intersection observer (line 1184) reports an element with a
  \<^verbatim>\<open>data-page-index\<close>; the reader renders such an element for every index of
  \<^verbatim>\<open>pages\<close> and for no other.
  \<^verbatim>\<open>const idx = parseInt(entry.target.getAttribute('data-page-index'));
  if (!isNaN(idx)) setCurrentPage(idx);\<close>
\<close>

definition observe :: "nat \<Rightarrow> reader \<Rightarrow> reader" where
  "observe idx r = (if idx < length (getPages2 (r_text r)) then r\<lparr>r_page := int idx\<rparr> else r)"

text \<open>
  \<^verbatim>\<open>loadFromLibrary\<close> (line 1230):
  \<^verbatim>\<open>setText(source.content || ""); ... setCurrentDocId(source.id); ...
  setTimeout(() => scrollToPage(0), 100);\<close>
  It does not call \<^verbatim>\<open>setCurrentPage\<close>.
\<close>

definition loadFromLibrary :: "doc_id \<Rightarrow> source_doc \<Rightarrow> reader \<Rightarrow> reader" where
  "loadFromLibrary source_id source r = r\<lparr>r_text := src_content source, r_docId := Some source_id\<rparr>"

text \<open>
  \<^verbatim>\<open>deleteFromLibrary\<close> (line 1240); \<open>deleteDoc_ok\<close> says whether the delete in the
  document store succeeds.
  \<^verbatim>\<open>if (!user) return;
  try { await deleteDoc(...);
    if (currentDocId === id) { setText(""); setCurrentDocName("Untitled Manuscript");
      setCurrentDocId(null); localStorage.removeItem('novelQuestCurrentDocId'); } ...
  } catch (err) { notify("Deletion failed"); }\<close>
\<close>

definition deleteFromLibrary :: "bool \<Rightarrow> bool \<Rightarrow> doc_id \<Rightarrow> reader \<Rightarrow> reader" where
  "deleteFromLibrary signed_in deleteDoc_ok doc r =
     (if \<not> signed_in then r
      else if \<not> deleteDoc_ok then r
      else if r_docId r = Some doc then r\<lparr>r_text := [], r_docId := None\<rparr>
      else r)"

text \<open>
  What the persistence effect (line 920) leaves in \<^verbatim>\<open>localStorage\<close> for a state:
  \<^verbatim>\<open>localStorage.setItem('novelQuestText', text);
  localStorage.setItem('novelQuestCurrentDocId', currentDocId || '');
  localStorage.setItem('novelQuestCurrentPage', String(currentPage));\<close>
\<close>

definition persist :: "reader \<Rightarrow> local_store" where
  "persist r =
     \<lparr>novelQuestText = Some (r_text r),
      novelQuestCurrentDocId = Some (case r_docId r of None \<Rightarrow> [] | Some d \<Rightarrow> d),
      novelQuestCurrentPage = Some (r_page r)\<rparr>"

section \<open>Properties of the paginator\<close>

lemma split_ws_last:
  "dropWhile (\<lambda>c. \<not> is_space c) s = [] \<Longrightarrow> split_ws s = [takeWhile (\<lambda>c. \<not> is_space c) s]"
  by (simp add: split_ws.simps [of s] Let_def)

lemma split_ws_more:
  "dropWhile (\<lambda>c. \<not> is_space c) s \<noteq> [] \<Longrightarrow>
   split_ws s = takeWhile (\<lambda>c. \<not> is_space c) s
                 # split_ws (dropWhile is_space (dropWhile (\<lambda>c. \<not> is_space c) s))"
  by (auto simp add: split_ws.simps [of s] Let_def)

lemma split_ws_no_space: "\<forall>c\<in>set s. \<not> is_space c \<Longrightarrow> split_ws s = [s]"
  by (simp add: split_ws_last)

lemma split_ws_word_sep:
  assumes "\<forall>c\<in>set w. \<not> is_space c" and "is_space d"
  shows "split_ws (w @ d # r) = w # split_ws (dropWhile is_space r)"
proof -
  have t: "takeWhile (\<lambda>c. \<not> is_space c) (w @ d # r) = w"
    using assms by (simp add: takeWhile_append2)
  have d: "dropWhile (\<lambda>c. \<not> is_space c) (w @ d # r) = d # r"
    using assms by (simp add: dropWhile_append2)
  have "dropWhile (\<lambda>c. \<not> is_space c) (w @ d # r) \<noteq> []" unfolding d by simp
  from split_ws_more [OF this] show ?thesis
    unfolding t d using assms(2) by simp
qed

lemma split_ws_tokens: "w \<in> set (split_ws s) \<Longrightarrow> c \<in> set w \<Longrightarrow> \<not> is_space c"
proof (induction s arbitrary: w rule: split_ws.induct)
  case (1 s)
  let ?tok = "takeWhile (\<lambda>c. \<not> is_space c) s"
  let ?rest = "dropWhile (\<lambda>c. \<not> is_space c) s"
  have tok: "c \<in> set ?tok \<Longrightarrow> \<not> is_space c"
    by (rule set_takeWhileD [THEN conjunct2])
  show ?case
  proof (cases "?rest = []")
    case True
    from split_ws_last [OF True] "1.prems" have "c \<in> set ?tok" by simp
    then show ?thesis by (rule tok)
  next
    case False
    from split_ws_more [OF False] "1.prems"(1)
    have "w = ?tok \<or> w \<in> set (split_ws (dropWhile is_space ?rest))" by simp
    then show ?thesis
    proof
      assume "w = ?tok"
      with "1.prems"(2) show ?thesis using tok by simp
    next
      assume "w \<in> set (split_ws (dropWhile is_space ?rest))"
      from "1.IH" [OF refl refl False this "1.prems"(2)] show ?thesis .
    qed
  qed
qed

lemma str_space: "str '' '' = [0x20]"
  by (simp add: str_def)

lemma is_space_0x20: "is_space 0x20"
  by (simp add: is_space_def)

lemma split_ws_all_space:
  assumes "\<forall>c\<in>set s. is_space c"
  shows "filter_Boolean (split_ws s) = []"
proof (cases s)
  case Nil
  then show ?thesis by (simp add: split_ws_last filter_Boolean_def)
next
  case (Cons c cs)
  with assms have c: "is_space c" and cs: "\<forall>c\<in>set cs. is_space c" by simp_all
  have "split_ws ([] @ c # cs) = [] # split_ws (dropWhile is_space cs)"
    by (rule split_ws_word_sep) (simp_all add: c)
  moreover have "dropWhile is_space cs = []" using cs by simp
  ultimately show ?thesis using Cons by (simp add: split_ws_last filter_Boolean_def)
qed

lemma split_ws_covers:
  "c \<in> set s \<Longrightarrow> \<not> is_space c \<Longrightarrow> \<exists>w\<in>set (split_ws s). c \<in> set w"
proof (induction s rule: split_ws.induct)
  case (1 s)
  let ?tok = "takeWhile (\<lambda>c. \<not> is_space c) s"
  let ?rest = "dropWhile (\<lambda>c. \<not> is_space c) s"
  have s: "s = ?tok @ ?rest" by simp
  show ?case
  proof (cases "?rest = []")
    case True
    then have "?tok = s" using s by (metis append_Nil2)
    with split_ws_last [OF True] "1.prems" show ?thesis by simp
  next
    case False
    note more = split_ws_more [OF False]
    have "c \<in> set ?tok \<or> c \<in> set ?rest" using "1.prems"(1) s
      by (metis Un_iff set_append)
    then show ?thesis
    proof
      assume "c \<in> set ?tok"
      then show ?thesis using more by simp
    next
      assume "c \<in> set ?rest"
      then have "c \<in> set (takeWhile is_space ?rest) \<or> c \<in> set (dropWhile is_space ?rest)"
        by (metis Un_iff set_append takeWhile_dropWhile_id)
      then have "c \<in> set (dropWhile is_space ?rest)"
        using "1.prems"(2) by (auto dest: set_takeWhileD)
      from "1.IH" [OF refl refl False this "1.prems"(2)] show ?thesis
        using more by simp
    qed
  qed
qed

lemma words_of_empty_iff: "words_of s = [] \<longleftrightarrow> (\<forall>c\<in>set s. is_space c)"
proof
  assume e: "words_of s = []"
  show "\<forall>c\<in>set s. is_space c"
  proof (rule ballI, rule ccontr)
    fix c assume "c \<in> set s" "\<not> is_space c"
    from split_ws_covers [OF this] obtain w where "w \<in> set (split_ws s)" "c \<in> set w" by blast
    then have "w \<in> set (words_of s)" by (auto simp: words_of_def filter_Boolean_def)
    with e show False by simp
  qed
next
  assume "\<forall>c\<in>set s. is_space c"
  then show "words_of s = []" by (simp add: words_of_def split_ws_all_space)
qed

lemma words_of_good:
  "w \<in> set (words_of s) \<Longrightarrow> w \<noteq> [] \<and> (\<forall>c\<in>set w. \<not> is_space c)"
  by (auto simp: words_of_def filter_Boolean_def dest: split_ws_tokens)

lemma join_Cons_append: "\<exists>z. join sep (y # ys) = y @ z"
  by (cases ys) auto

lemma dropWhile_space_join:
  assumes "y \<noteq> []" "\<forall>c\<in>set y. \<not> is_space c"
  shows "dropWhile is_space (join sep (y # ys)) = join sep (y # ys)"
proof -
  obtain z where z: "join sep (y # ys) = y @ z" using join_Cons_append by blast
  obtain c cs where y: "y = c # cs" using assms(1) by (cases y) auto
  with assms(2) have c: "\<not> is_space c" by simp
  from z y have "join sep (y # ys) = c # (cs @ z)" by simp
  then show ?thesis using c by simp
qed

lemma split_ws_join:
  "ws \<noteq> [] \<Longrightarrow> \<forall>w\<in>set ws. w \<noteq> [] \<and> (\<forall>c\<in>set w. \<not> is_space c) \<Longrightarrow>
   split_ws (join [0x20] ws) = ws"
proof (induction "[0x20] :: jsstring" ws rule: join.induct)
  case 1
  then show ?case by simp
next
  case (2 x)
  then show ?case by (simp add: split_ws_no_space)
next
  case (3 x y ys)
  have "split_ws (x @ 0x20 # join [0x20] (y # ys))
          = x # split_ws (dropWhile is_space (join [0x20] (y # ys)))"
    by (rule split_ws_word_sep) (use 3 in \<open>simp_all add: is_space_0x20\<close>)
  also have "dropWhile is_space (join [0x20] (y # ys)) = join [0x20] (y # ys)"
    by (rule dropWhile_space_join) (use 3 in simp_all)
  also have "split_ws (join [0x20] (y # ys)) = y # ys"
    using 3 by simp
  finally show ?case by simp
qed

lemma words_of_join:
  assumes "\<forall>w\<in>set ws. w \<noteq> [] \<and> (\<forall>c\<in>set w. \<not> is_space c)"
  shows "words_of (join (str '' '') ws) = ws"
proof (cases "ws = []")
  case True
  then show ?thesis by (simp add: words_of_def filter_Boolean_def split_ws_last)
next
  case False
  from split_ws_join [OF False assms] have "split_ws (join (str '' '') ws) = ws"
    by (simp add: str_space)
  moreover have "filter (\<lambda>w. w \<noteq> []) ws = ws" using assms by (simp add: filter_id_conv)
  ultimately show ?thesis by (simp add: words_of_def filter_Boolean_def)
qed

lemma ceil_div_step:
  fixes n :: nat
  assumes "0 < n" "i < L"
  shows "(L - i + (n - 1)) div n = Suc ((L - (i + n) + (n - 1)) div n)"
proof -
  define q where "q = L - (i + n) + (n - 1)"
  define p where "p = L - i + (n - 1)"
  have "p div n = Suc (q div n)"
  proof (cases "i + n \<le> L")
    case True
    then have "p = q + n" unfolding p_def q_def using assms(1) by linarith
    then show ?thesis using assms(1) div_add_self2 [of n q] by simp
  next
    case False
    define r where "r = L - i - 1"
    have "q = n - 1" unfolding q_def using False by simp
    then have "q div n = 0" using assms(1) by simp
    moreover have "r < n" "p = r + n" unfolding r_def p_def using False assms by linarith+
    then have "p div n = Suc 0" using assms(1) div_add_self2 [of n r] by simp
    ultimately show ?thesis by simp
  qed
  then show ?thesis by (simp only: p_def q_def)
qed

lemma getPages_loop_closed:
  "getPages_loop ws i res =
     res @ map (\<lambda>k. join (str '' '') (take WORDS_PER_PAGE (drop (i + k * WORDS_PER_PAGE) ws)))
             [0..<(length ws - i + (WORDS_PER_PAGE - 1)) div WORDS_PER_PAGE]"
proof (induction ws i res rule: getPages_loop.induct)
  case (1 ws i res)
  let ?n = WORDS_PER_PAGE
  let ?f = "\<lambda>i k. join (str '' '') (take ?n (drop (i + k * ?n) ws))"
  show ?case
  proof (cases "i < length ws")
    case False
    then have "(length ws - i + (?n - 1)) div ?n = 0" by (simp add: WORDS_PER_PAGE_def)
    with False show ?thesis by (simp add: getPages_loop.simps [of ws i res])
  next
    case True
    have m: "(length ws - i + (?n - 1)) div ?n = Suc ((length ws - (i + ?n) + (?n - 1)) div ?n)"
      by (rule ceil_div_step) (simp_all add: WORDS_PER_PAGE_def True)
    have shift: "map (?f i) [0..<Suc m] = ?f i 0 # map (?f (i + ?n)) [0..<m]" for m
      by (simp add: map_upt_Suc add.assoc del: upt_Suc)
    have "getPages_loop ws i res = getPages_loop ws (i + ?n) (res @ [join (str '' '') (slice ws i (i + ?n))])"
      using True by (simp add: getPages_loop.simps [of ws i res])
    also have "\<dots> = (res @ [join (str '' '') (slice ws i (i + ?n))]) @
        map (?f (i + ?n)) [0..<(length ws - (i + ?n) + (?n - 1)) div ?n]"
      by (rule "1.IH" [OF True])
    also have "slice ws i (i + ?n) = take ?n (drop i ws)" by (simp add: slice_def)
    finally show ?thesis unfolding m shift by simp
  qed
qed

lemma getPages_loop_0:
  "getPages_loop ws 0 [] = map (page_at ws) [0..<(length ws + (WORDS_PER_PAGE - 1)) div WORDS_PER_PAGE]"
  by (simp add: getPages_loop_closed page_at_def slice_def)

lemma concat_groups:
  "concat (map (\<lambda>k. take n (drop (k * n) ws)) [0..<m]) = take (m * n) ws"
proof (induction m)
  case 0
  then show ?case by simp
next
  case (Suc m)
  have "Suc m * n = m * n + n" by simp
  then have "take (Suc m * n) ws = take (m * n) ws @ take n (drop (m * n) ws)"
    by (simp only: take_add)
  with Suc show ?case by simp
qed

lemma paginate_nonempty_words:
  assumes "words_of text \<noteq> []"
  shows "paginate ph text = map (page_at (words_of text))
           [0..<(length (words_of text) + (WORDS_PER_PAGE - 1)) div WORDS_PER_PAGE]"
proof -
  have "0 < (length (words_of text) + (WORDS_PER_PAGE - 1)) div WORDS_PER_PAGE"
    using assms unfolding WORDS_PER_PAGE_def by (cases "words_of text") (simp_all add: div_greater_zero_iff)
  then show ?thesis by (simp add: paginate_def Let_def getPages_loop_0)
qed

lemma paginate_no_words:
  assumes "words_of text = []"
  shows "paginate ph text = [ph]"
  using assms by (simp add: paginate_def Let_def getPages_loop_0 WORDS_PER_PAGE_def)

lemma words_of_page_at:
  "words_of (page_at (words_of text) k) = take WORDS_PER_PAGE (drop (k * WORDS_PER_PAGE) (words_of text))"
  unfolding page_at_def slice_def add_diff_cancel_left'
proof (rule words_of_join, rule ballI)
  fix w assume "w \<in> set (take WORDS_PER_PAGE (drop (k * WORDS_PER_PAGE) (words_of text)))"
  then have "w \<in> set (words_of text)" by (meson in_set_dropD in_set_takeD)
  then show "w \<noteq> [] \<and> (\<forall>c\<in>set w. \<not> is_space c)" by (rule words_of_good)
qed

lemma paginate_roundtrip:
  assumes "words_of text \<noteq> []"
  shows "concat (map words_of (paginate ph text)) = words_of text"
proof -
  let ?ws = "words_of text" and ?n = WORDS_PER_PAGE
  let ?m = "(length ?ws + (?n - 1)) div ?n"
  have "concat (map words_of (paginate ph text))
          = concat (map (\<lambda>k. take ?n (drop (k * ?n) ?ws)) [0..<?m])"
    by (simp add: paginate_nonempty_words [OF assms] comp_def words_of_page_at)
  also have "\<dots> = take (?m * ?n) ?ws" by (rule concat_groups)
  also have "length ?ws \<le> ?m * ?n" unfolding WORDS_PER_PAGE_def by simp
  then have "take (?m * ?n) ?ws = ?ws" by simp
  finally show ?thesis .
qed

section \<open>Claims about the paginator\<close>

text \<open>
  C1 (as amended). For every input text with at least one word, the words of all pages
  returned by the paginator, concatenated in page order, are exactly the words of the
  text (the text split on runs of white space, empty elements discarded). This holds for
  each of the three copies of the paginator. The claim as written covers every text; for
  a text without words the single page is the placeholder, whose words are not those of
  the text (the counterexample below).
\<close>

theorem paginator_roundtrip:
  "words_of text \<noteq> [] \<Longrightarrow>
     concat (map words_of (getPages text)) = words_of text \<and>
     concat (map words_of (getPages2 text)) = words_of text \<and>
     concat (map words_of (pages text)) = words_of text"
  by (simp add: getPages_def getPages2_def pages_def paginate_roundtrip)

theorem paginator_roundtrip_witness:
  "words_of (str ''to be  or not '') = [str ''to'', str ''be'', str ''or'', str ''not''] \<and>
   concat (map words_of (getPages (str ''to be  or not ''))) = words_of (str ''to be  or not '') \<and>
   concat (map words_of (getPages2 (str ''to be  or not ''))) = words_of (str ''to be  or not '') \<and>
   concat (map words_of (pages (str ''to be  or not ''))) = words_of (str ''to be  or not '')"
proof -
  have w: "words_of (str ''to be  or not '') = [str ''to'', str ''be'', str ''or'', str ''not'']"
    by code_simp
  then have "words_of (str ''to be  or not '') \<noteq> []" by simp
  from paginator_roundtrip [OF this] w show ?thesis by simp
qed

theorem paginator_roundtrip_counterexample:
  "words_of [] = [] \<and> concat (map words_of (getPages [])) \<noteq> words_of [] \<and>
   concat (map words_of (pages [])) \<noteq> words_of []"
  by code_simp

lemma words_of_repeat:
  assumes "w \<noteq> []" "\<forall>c\<in>set w. \<not> is_space c"
  shows "words_of (concat (replicate n (w @ [0x20]))) = replicate n w"
proof (induction n)
  case 0
  show ?case by (simp add: words_of_def filter_Boolean_def split_ws_last)
next
  case (Suc n)
  let ?r = "concat (replicate n (w @ [0x20]))"
  have d: "dropWhile is_space ?r = ?r"
  proof (cases n)
    case 0
    then show ?thesis by simp
  next
    case (Suc m)
    obtain c cs where "w = c # cs" using assms(1) by (cases w) auto
    with assms(2) Suc show ?thesis by simp
  qed
  have "split_ws (w @ 0x20 # ?r) = w # split_ws (dropWhile is_space ?r)"
    by (rule split_ws_word_sep) (simp_all add: assms is_space_0x20)
  then have "words_of (w @ 0x20 # ?r) = w # words_of ?r"
    using assms(1) by (simp add: words_of_def filter_Boolean_def d)
  with Suc show ?case by simp
qed

text \<open>
  C2. For every input text with at least one word, \<^verbatim>\<open>getPages\<close> returns
  \<open>\<lceil>length words / 275\<rceil>\<close> pages; page \<open>k\<close> is the words
  \<open>275 k, \<dots>, 275 k + 274\<close> of the text (as far as they exist) joined by single
  spaces, so the groups are consecutive and in order; every page but the last holds exactly
  275 words and the last between 1 and 275. A text of 700 words yields three pages with
  275, 275 and 150 words.
\<close>

theorem getPages_partition:
  "words_of text \<noteq> [] \<Longrightarrow>
     length (getPages text) = (length (words_of text) + (WORDS_PER_PAGE - 1)) div WORDS_PER_PAGE \<and>
     (\<forall>k<length (getPages text).
        getPages text ! k =
          join (str '' '') (slice (words_of text) (k * WORDS_PER_PAGE) (k * WORDS_PER_PAGE + WORDS_PER_PAGE)) \<and>
        words_of (getPages text ! k) = take WORDS_PER_PAGE (drop (k * WORDS_PER_PAGE) (words_of text)) \<and>
        0 < length (words_of (getPages text ! k)) \<and>
        length (words_of (getPages text ! k)) \<le> WORDS_PER_PAGE \<and>
        (Suc k < length (getPages text) \<longrightarrow> length (words_of (getPages text ! k)) = WORDS_PER_PAGE)) \<and>
     (length (words_of text) = 700 \<longrightarrow>
        map (\<lambda>p. length (words_of p)) (getPages text) = [275, 275, 150])"
proof -
  assume ne: "words_of text \<noteq> []"
  let ?ws = "words_of text" and ?n = WORDS_PER_PAGE
  let ?m = "(length ?ws + (?n - 1)) div ?n"
  have gp: "getPages text = map (page_at ?ws) [0..<?m]"
    unfolding getPages_def by (rule paginate_nonempty_words [OF ne])
  have len: "length (getPages text) = ?m" by (simp add: gp)
  have nth: "getPages text ! k = page_at ?ws k" if "k < ?m" for k
    using that by (simp add: gp)
  have bound: "k * ?n < length ?ws" if "k < ?m" for k
  proof -
    from that have "Suc k \<le> ?m" by simp
    then have "Suc k * ?n \<le> ?m * ?n" by (rule mult_le_mono1)
    also have "?m * ?n \<le> length ?ws + (?n - 1)" by simp
    finally show ?thesis by (simp add: WORDS_PER_PAGE_def)
  qed
  have full: "k * ?n + ?n \<le> length ?ws" if "Suc k < ?m" for k
  proof (rule ccontr)
    assume "\<not> k * ?n + ?n \<le> length ?ws"
    then have "length ?ws + (?n - 1) < Suc (Suc k) * ?n" by (simp add: WORDS_PER_PAGE_def)
    then have "?m < Suc (Suc k)" by (simp add: WORDS_PER_PAGE_def less_mult_imp_div_less)
    with that show False by simp
  qed
  have each: "getPages text ! k = join (str '' '') (slice ?ws (k * ?n) (k * ?n + ?n)) \<and>
        words_of (getPages text ! k) = take ?n (drop (k * ?n) ?ws) \<and>
        0 < length (words_of (getPages text ! k)) \<and>
        length (words_of (getPages text ! k)) \<le> ?n \<and>
        (Suc k < length (getPages text) \<longrightarrow> length (words_of (getPages text ! k)) = ?n)"
    if "k < length (getPages text)" for k
  proof -
    from that have k: "k < ?m" by (simp add: len)
    have w: "words_of (getPages text ! k) = take ?n (drop (k * ?n) ?ws)"
      by (simp add: nth [OF k] words_of_page_at)
    have "0 < length (take ?n (drop (k * ?n) ?ws))"
      using bound [OF k] by (simp add: WORDS_PER_PAGE_def)
    moreover have "length (take ?n (drop (k * ?n) ?ws)) = ?n" if "Suc k < ?m"
      using full [OF that] by simp
    ultimately show ?thesis
      unfolding w len by (simp add: nth [OF k] page_at_def)
  qed
  have ex: "map (\<lambda>p. length (words_of p)) (getPages text) = [275, 275, 150]"
    if l: "length ?ws = 700"
  proof -
    have m: "?m = 3" by (simp add: l WORDS_PER_PAGE_def)
    have upt: "[0..<3] = [0, Suc 0, 2]" by (simp add: upt_rec)
    show ?thesis
      unfolding gp m upt by (simp add: words_of_page_at l WORDS_PER_PAGE_def)
  qed
  from len each ex show ?thesis by blast
qed

theorem getPages_partition_witness:
  "length (words_of (concat (replicate 700 (str ''a '')))) = 700 \<and>
   length (getPages (concat (replicate 700 (str ''a '')))) = 3 \<and>
   map (\<lambda>p. length (words_of p)) (getPages (concat (replicate 700 (str ''a '')))) = [275, 275, 150] \<and>
   getPages (concat (replicate 700 (str ''a ''))) ! 2 = join (str '' '') (replicate 150 (str ''a''))"
proof -
  let ?t = "concat (replicate 700 (str ''a ''))"
  have s: "str ''a '' = str ''a'' @ [0x20]" by (simp add: str_def)
  have w: "words_of ?t = replicate 700 (str ''a'')"
    unfolding s by (rule words_of_repeat) (simp_all add: str_def is_space_def)
  then have ne: "words_of ?t \<noteq> []" by simp
  have l: "length (words_of ?t) = 700" by (simp add: w)
  note p = getPages_partition [OF ne]
  from p have len: "length (getPages ?t) = 3" by (simp add: l WORDS_PER_PAGE_def)
  from p l have m: "map (\<lambda>p. length (words_of p)) (getPages ?t) = [275, 275, 150]" by blast
  from p len have "getPages ?t ! 2 = join (str '' '') (slice (words_of ?t) (2 * WORDS_PER_PAGE) (2 * WORDS_PER_PAGE + WORDS_PER_PAGE))"
    by simp
  then have "getPages ?t ! 2 = join (str '' '') (replicate 150 (str ''a''))"
    by (simp add: w slice_def WORDS_PER_PAGE_def)
  with l len m show ?thesis by simp
qed

text \<open>
  C3. For every text without words (empty, or white space only) each copy of the paginator
  returns exactly one page, its fixed placeholder message; and for every text whatsoever
  the returned page sequence is not empty. The paginator is a total function: no input
  is an error.
\<close>

theorem paginator_placeholder:
  "((\<forall>c\<in>set text. is_space c) \<longrightarrow>
      getPages text = [str ''(Vault empty. Sign in and upload a manuscript to begin analysis.)''] \<and>
      getPages2 text = [str ''(Vault empty. Sign in to upload document.)''] \<and>
      pages text = [str ''No manuscript loaded. Use the Library to upload a PDF or start writing.'']) \<and>
   getPages text \<noteq> [] \<and> getPages2 text \<noteq> [] \<and> pages text \<noteq> []"
proof -
  have "paginate ph text \<noteq> []" for ph
  proof (cases "words_of text = []")
    case True
    then show ?thesis by (simp add: paginate_no_words)
  next
    case False
    then have "0 < (length (words_of text) + (WORDS_PER_PAGE - 1)) div WORDS_PER_PAGE"
      unfolding WORDS_PER_PAGE_def
      by (cases "words_of text") (simp_all add: div_greater_zero_iff)
    then show ?thesis by (simp add: paginate_nonempty_words [OF False])
  qed
  moreover have "paginate ph text = [ph]" if "\<forall>c\<in>set text. is_space c" for ph
    using that by (simp add: paginate_no_words words_of_empty_iff)
  ultimately show ?thesis by (simp add: getPages_def getPages2_def pages_def)
qed

theorem paginator_placeholder_witness:
  "is_space 0x20 \<and> is_space 0x0A \<and> is_space 0x09 \<and>
   getPages [0x20, 0x0A, 0x09] = [str ''(Vault empty. Sign in and upload a manuscript to begin analysis.)''] \<and>
   pages [0x20, 0x0A, 0x09] = [str ''No manuscript loaded. Use the Library to upload a PDF or start writing.''] \<and>
   getPages [] = [str ''(Vault empty. Sign in and upload a manuscript to begin analysis.)'']"
proof -
  have h: "\<forall>c\<in>set [0x20, 0x0A, 0x09]. is_space c" by (simp add: is_space_def)
  have e: "\<forall>c\<in>set ([] :: jsstring). is_space c" by simp
  have "is_space 0x20 \<and> is_space 0x0A \<and> is_space 0x09" by (simp add: is_space_def)
  with paginator_placeholder [of "[0x20, 0x0A, 0x09]"] h paginator_placeholder [of "[]"] e
  show ?thesis by blast
qed

section \<open>Properties of the upload loop and of trim\<close>

lemma extract_loop_done:
  "\<not> i \<le> min (length pdf) cap \<Longrightarrow> extract_loop cap pdf i acc = Some acc"
  by (auto simp: extract_loop.simps [of cap pdf i])

lemma extract_loop_reject:
  "i \<le> min (length pdf) cap \<Longrightarrow> pdf ! (i - 1) = None \<Longrightarrow> extract_loop cap pdf i acc = None"
  by (auto simp: extract_loop.simps [of cap pdf i])

lemma extract_loop_page:
  "i \<le> min (length pdf) cap \<Longrightarrow> pdf ! (i - 1) = Some items \<Longrightarrow>
   extract_loop cap pdf i acc = extract_loop cap pdf (i + 1) (acc @ join (str '' '') items @ [0x0A])"
  by (auto simp: extract_loop.simps [of cap pdf i])

lemma extract_loop_take:
  "1 \<le> i \<Longrightarrow> extract_loop cap (take cap pdf) i acc = extract_loop cap pdf i acc"
proof (induction cap pdf i acc rule: extract_loop.induct)
  case (1 cap pdf i fullText)
  show ?case
  proof (cases "i \<le> min (length pdf) cap")
    case False
    then have False': "\<not> i \<le> min (length (take cap pdf)) cap" by simp
    show ?thesis by (simp only: extract_loop_done [OF False] extract_loop_done [OF False'])
  next
    case True
    then have True': "i \<le> min (length (take cap pdf)) cap" by simp
    from True "1.prems" have "i - 1 < cap" by auto
    then have nth: "take cap pdf ! (i - 1) = pdf ! (i - 1)" by (rule nth_take)
    show ?thesis
    proof (cases "pdf ! (i - 1)")
      case None
      then show ?thesis
        using extract_loop_reject [OF True None] extract_loop_reject [OF True'] nth by simp
    next
      case (Some items)
      have "extract_loop cap (take cap pdf) (i + 1) (fullText @ join (str '' '') items @ [0x0A])
               = extract_loop cap pdf (i + 1) (fullText @ join (str '' '') items @ [0x0A])"
        by (rule "1.IH" [OF True Some]) simp
      then show ?thesis
        using extract_loop_page [OF True Some] extract_loop_page [OF True'] nth Some by simp
    qed
  qed
qed

lemma extract_loop_readable:
  "1 \<le> i \<Longrightarrow> extract_loop cap (map Some ps) i acc =
     Some (acc @ concat (map (\<lambda>items. join (str '' '') items @ [0x0A]) (drop (i - 1) (take cap ps))))"
proof (induction cap "map Some ps :: pdf" i acc rule: extract_loop.induct)
  case (1 cap i fullText)
  let ?f = "\<lambda>items. join (str '' '') items @ [0x0A]"
  show ?case
  proof (cases "i \<le> min (length (map Some ps)) cap")
    case False
    then have "drop (i - 1) (take cap ps) = []" using "1.prems" by auto
    with extract_loop_done [OF False] show ?thesis by simp
  next
    case True
    then have lt: "i - 1 < length (take cap ps)" using "1.prems" by auto
    have "drop (i - 1) (take cap ps) = take cap ps ! (i - 1) # drop (Suc (i - 1)) (take cap ps)"
      by (rule Cons_nth_drop_Suc [OF lt, symmetric])
    then have d: "drop (i - 1) (take cap ps) = ps ! (i - 1) # drop i (take cap ps)"
      using "1.prems" lt by simp
    have nth: "map Some ps ! (i - 1) = Some (ps ! (i - 1))" using lt by simp
    have "extract_loop cap (map Some ps) (i + 1) (fullText @ ?f (ps ! (i - 1)))
        = Some ((fullText @ ?f (ps ! (i - 1))) @ concat (map ?f (drop (i + 1 - 1) (take cap ps))))"
      by (rule "1.hyps" [OF True nth]) simp
    with extract_loop_page [OF True nth] d show ?thesis by simp
  qed
qed

lemma trim_empty_iff: "trim s = [] \<longleftrightarrow> (\<forall>c\<in>set s. is_space c)"
proof -
  have "set s = set (takeWhile is_space s) \<union> set (dropWhile is_space s)"
    by (metis set_append takeWhile_dropWhile_id)
  moreover have "\<forall>c\<in>set (takeWhile is_space s). is_space c"
    by (auto dest: set_takeWhileD)
  ultimately have "(\<forall>c\<in>set s. is_space c) \<longleftrightarrow> (\<forall>c\<in>set (dropWhile is_space s). is_space c)"
    by auto
  then show ?thesis by (simp add: trim_def)
qed


section \<open>Claims about restore, upload and the rate limiter\<close>

text \<open>
  C10. \<^verbatim>\<open>handleFileUpload\<close> reads the first 50 pages of an uploaded PDF and no
  others (the first 100 in part_000): the outcome for a file is the outcome for its first
  50 (100) pages alone, and when every page read is readable and the store accepts the
  document, the stored content is the text of exactly those pages, each page's items
  joined by a space and ended by a line feed. Pages beyond the cap are left out without
  any notice, so the stored document need not hold the whole file.
\<close>

theorem upload_page_cap:
  "handleFileUpload signed_in ready (Some (Some pdf)) ok
     = handleFileUpload signed_in ready (Some (Some (take 50 pdf))) ok \<and>
   handleFileUpload_part0 signed_in ready (Some (Some pdf)) ok
     = handleFileUpload_part0 signed_in ready (Some (Some (take 100 pdf))) ok \<and>
   handleFileUpload True True (Some (Some (map Some ps))) True
     = Stored (concat (map (\<lambda>items. join (str '' '') items @ [0x0A]) (take 50 ps))) \<and>
   handleFileUpload_part0 True True (Some (Some (map Some ps))) True
     = Stored (concat (map (\<lambda>items. join (str '' '') items @ [0x0A]) (take 100 ps)))"
  by (simp add: handleFileUpload_def handleFileUpload_part0_def extract_loop_take
        extract_loop_readable)

theorem upload_page_cap_witness:
  "handleFileUpload True True
      (Some (Some (replicate 50 (Some [str ''a'', str ''b'']) @ [Some [str ''The end'']]))) True
     = Stored (concat (replicate 50 (str ''a b'' @ [0x0A]))) \<and>
   handleFileUpload True True
      (Some (Some (replicate 50 (Some [str ''a'', str ''b'']) @ [Some [str ''The end'']]))) True
     = handleFileUpload True True (Some (Some (replicate 50 (Some [str ''a'', str ''b''])))) True"
proof -
  let ?ps = "replicate 50 [str ''a'', str ''b''] @ [[str ''The end'']]"
  have m: "replicate 50 (Some [str ''a'', str ''b'']) @ [Some [str ''The end'']] = map Some ?ps"
    by simp
  have j: "join (str '' '') [str ''a'', str ''b''] @ [0x0A] = str ''a b'' @ [0x0A]"
    by (simp add: str_def)
  have "handleFileUpload True True (Some (Some (map Some ?ps))) True
     = Stored (concat (map (\<lambda>items. join (str '' '') items @ [0x0A]) (take 50 ?ps)))"
    using upload_page_cap [of True True "map Some ?ps" True ?ps] by blast
  then have a: "handleFileUpload True True (Some (Some (map Some ?ps))) True
     = Stored (concat (replicate 50 (str ''a b'' @ [0x0A])))"
    by (simp add: j map_replicate_const del: join.simps)
  have "handleFileUpload True True (Some (Some (map Some ?ps))) True
     = handleFileUpload True True (Some (Some (take 50 (map Some ?ps)))) True"
    using upload_page_cap [of True True "map Some ?ps" True ?ps] by blast
  then have b: "handleFileUpload True True (Some (Some (map Some ?ps))) True
     = handleFileUpload True True (Some (Some (replicate 50 (Some [str ''a'', str ''b''])))) True"
    by simp
  from a b show ?thesis unfolding m by simp
qed




text \<open>
  C9 (as amended). An invocation of \<^verbatim>\<open>callAi\<close> less than 1500 ms after
  \<^verbatim>\<open>lastAiCall\<close>, the time of the latest invocation that went on to the API, makes
  no request and returns the wait message with a positive number of seconds. An invocation
  at least 1500 ms after it goes on to the API when the API key is configured and the
  document text is not blank, and sets \<^verbatim>\<open>lastAiCall\<close>. An invocation that makes no
  request leaves \<^verbatim>\<open>lastAiCall\<close> as it was: the interval is measured from the
  latest request, not from the latest invocation (the counterexample below: a request
  600 ms after a refused invocation).
\<close>

theorem callAi_gate:
  "(now - lastAiCall s < AI_CALL_DELAY \<longrightarrow>
      (\<exists>w. 0 < w \<and> callAi key text now s = (RateLimited w, s\<lparr>nextCallAvailable := w\<rparr>))) \<and>
   (AI_CALL_DELAY \<le> now - lastAiCall s \<and> key \<noteq> [] \<and> (\<exists>c\<in>set text. \<not> is_space c) \<longrightarrow>
      callAi key text now s = (Requested, s\<lparr>lastAiCall := now\<rparr>)) \<and>
   (fst (callAi key text now s) \<noteq> Requested \<longrightarrow>
      lastAiCall (snd (callAi key text now s)) = lastAiCall s)"
proof -
  have "0 < - ((- (AI_CALL_DELAY - (now - lastAiCall s))) div 1000)"
    if "now - lastAiCall s < AI_CALL_DELAY"
  proof -
    from that have "- (AI_CALL_DELAY - (now - lastAiCall s)) < 0" by simp
    then have "(- (AI_CALL_DELAY - (now - lastAiCall s))) div 1000 < 0"
      by (simp add: div_neg_pos_less0)
    then show ?thesis by simp
  qed
  moreover have "trim text \<noteq> []" if "\<exists>c\<in>set text. \<not> is_space c"
    using that by (simp add: trim_empty_iff)
  ultimately show ?thesis
    by (auto simp: callAi_def Let_def)
qed

theorem callAi_gate_witness:
  "(10400::int) - 10000 < AI_CALL_DELAY \<and>
   callAi (str ''key'') (str ''a tale'') 10400 \<lparr>lastAiCall = 10000, nextCallAvailable = 0\<rparr>
     = (RateLimited 2, \<lparr>lastAiCall = 10000, nextCallAvailable = 2\<rparr>) \<and>
   AI_CALL_DELAY \<le> 11500 - 10000 \<and>
   callAi (str ''key'') (str ''a tale'') 11500 \<lparr>lastAiCall = 10000, nextCallAvailable = 0\<rparr>
     = (Requested, \<lparr>lastAiCall = 11500, nextCallAvailable = 0\<rparr>)"
proof -
  let ?s = "\<lparr>lastAiCall = 10000, nextCallAvailable = 0\<rparr>"
  have k: "str ''key'' \<noteq> []" by (simp add: str_def)
  have t: "\<exists>c\<in>set (str ''a tale''). \<not> is_space c" by (simp add: str_def is_space_def)
  have d: "AI_CALL_DELAY \<le> 11500 - lastAiCall ?s" by (simp add: AI_CALL_DELAY_def)
  from callAi_gate [of 11500 ?s "str ''key''" "str ''a tale''"] k t d
  have "callAi (str ''key'') (str ''a tale'') 11500 ?s = (Requested, ?s\<lparr>lastAiCall := 11500\<rparr>)"
    by blast
  moreover have "callAi (str ''key'') (str ''a tale'') 10400 ?s
     = (RateLimited 2, \<lparr>lastAiCall = 10000, nextCallAvailable = 2\<rparr>)"
    by (simp add: callAi_def AI_CALL_DELAY_def Let_def)
  ultimately show ?thesis by (simp add: AI_CALL_DELAY_def)
qed

theorem callAi_gate_counterexample:
  "callAi_seq (str ''key'') (str ''a tale'') [10000, 11000, 11600]
      \<lparr>lastAiCall = 0, nextCallAvailable = 0\<rparr> = [Requested, RateLimited 1, Requested] \<and>
   (11600::int) - 11000 < AI_CALL_DELAY"
  by (simp add: callAi_def AI_CALL_DELAY_def Let_def trim_empty_iff str_def is_space_def)

section \<open>Claims about the position auto-save\<close>



















section \<open>Claims about loading a session and the current page\<close>

lemma paginate_two:
  "length (paginate ph (concat (replicate 276 (str ''a '')))) = 2"
proof -
  let ?t = "concat (replicate 276 (str ''a ''))"
  have s: "str ''a '' = str ''a'' @ [0x20]" by (simp add: str_def)
  have w: "words_of ?t = replicate 276 (str ''a'')"
    unfolding s by (rule words_of_repeat) (simp_all add: str_def is_space_def)
  then have ne: "words_of ?t \<noteq> []" by simp
  show ?thesis
    unfolding paginate_nonempty_words [OF ne]
    by (simp add: w WORDS_PER_PAGE_def)
qed

lemma pages_two:
  "length (getPages2 (concat (replicate 276 (str ''a '')))) = 2"
  "length (pages (concat (replicate 276 (str ''a '')))) = 2"
  by (simp_all add: getPages2_def pages_def paginate_two)

lemma pages_empty: "length (getPages2 []) = 1"
  by (simp add: getPages2_def paginate_no_words words_of_empty_iff)

lemma paginate_not_Nil: "paginate ph text \<noteq> []"
proof (cases "words_of text = []")
  case True
  then show ?thesis by (simp add: paginate_no_words)
next
  case False
  then have "0 < (length (words_of text) + (WORDS_PER_PAGE - 1)) div WORDS_PER_PAGE"
    unfolding WORDS_PER_PAGE_def
    by (cases "words_of text") (simp_all add: div_greater_zero_iff)
  then show ?thesis by (simp add: paginate_nonempty_words [OF False])
qed

lemma getPages2_not_Nil: "getPages2 text \<noteq> []"
  by (simp add: getPages2_def paginate_not_Nil)

lemma restoreSession_page: "r_page (restoreSession signed_in remote r) = r_page r"
  by (simp add: restoreSession_def split: option.splits)

lemma restoreSession_lastPosition:
  "restoreSession signed_in (remote\<lparr>lastPosition := lp\<rparr>) r
     = restoreSession signed_in (remote\<lparr>lastPosition := lp'\<rparr>) r"
  by (simp add: restoreSession_def split: option.splits)

text \<open>
  C7 (as amended). No copy of the application compares a local with a remote saved
  position. When the second \<^verbatim>\<open>App\<close> loads a session, the current page is the locally
  saved page, and the scroll of the timer set on mount is computed from the locally saved
  page and text alone; the state after the restore is the same whatever the remote saved
  position is, also when that position names the same document with another page (the
  counterexample below). When the reader is rendered as the timer fires and the locally
  saved page is a page of the locally saved text, the reader scrolls to the locally saved
  page. The same holds of part_000, which reads nothing from the remote store on load.
  The first \<^verbatim>\<open>App\<close> keeps no local position: when the flag \<^verbatim>\<open>isRestoring\<close> and
  the document id its listener captured at sign-in are \<^verbatim>\<open>true\<close> and \<^verbatim>\<open>null\<close>,
  a snapshot of the remote position opens the document it names and passes its page to
  \<^verbatim>\<open>scrollToPage\<close>.
\<close>

theorem restore_source:
  "fst (load_session local signed_in (remote\<lparr>lastPosition := lp\<rparr>) mounted)
     = fst (load_session local signed_in (remote\<lparr>lastPosition := lp'\<rparr>) mounted) \<and>
   r_page (fst (load_session local signed_in remote mounted)) = or0 (novelQuestCurrentPage local) \<and>
   snd (load_session local signed_in remote mounted)
     = autoScroll (or0 (novelQuestCurrentPage local))
         (length (getPages2 (r_text (initial_reader local)))) mounted \<and>
   (mounted \<and> 0 \<le> or0 (novelQuestCurrentPage local) \<and>
    or0 (novelQuestCurrentPage local) < int (length (getPages2 (r_text (initial_reader local)))) \<longrightarrow>
      snd (load_session local signed_in remote mounted) = Some (or0 (novelQuestCurrentPage local))) \<and>
   r_page (fst (load_session_part0 local_p mounted)) = or0 (nq_page local_p) \<and>
   snd (load_session_part0 local_p mounted)
     = restoreLastVisitedPage True (nq_page local_p)
         (length (pages (r_text (initial_reader_part0 local_p)))) mounted \<and>
   (mounted \<and> 0 \<le> or0 (nq_page local_p) \<and>
    or0 (nq_page local_p) < int (length (pages (r_text (initial_reader_part0 local_p)))) \<longrightarrow>
      snd (load_session_part0 local_p mounted) = Some (or0 (nq_page local_p))) \<and>
   (lastPosition remote = Some data \<and> pos_docId data = Some d \<and> d \<noteq> [] \<and>
    map_of (sources remote) d = Some src \<longrightarrow>
      restorePosition True None remote = RestoreDoc d (src_content src) (or0 (pos_page data)))"
proof -
  let ?p = "or0 (novelQuestCurrentPage local)" and ?n = "length (getPages2 (r_text (initial_reader local)))"
  let ?q = "or0 (nq_page local_p)" and ?m = "length (pages (r_text (initial_reader_part0 local_p)))"
  have 1: "fst (load_session local signed_in (remote\<lparr>lastPosition := lp\<rparr>) mounted)
     = fst (load_session local signed_in (remote\<lparr>lastPosition := lp'\<rparr>) mounted)"
    unfolding load_session_def Let_def fst_conv by (rule restoreSession_lastPosition)
  have 2: "r_page (fst (load_session local signed_in remote mounted)) = ?p"
    by (simp add: load_session_def Let_def restoreSession_page initial_reader_def)
  have 3: "snd (load_session local signed_in remote mounted) = autoScroll ?p ?n mounted"
    by (simp add: load_session_def Let_def scroll_target_def initial_reader_def)
  have 4: "snd (load_session local signed_in remote mounted) = Some ?p"
    if "mounted \<and> 0 \<le> ?p \<and> ?p < int ?n"
  proof -
    from that have "0 < ?n" by linarith
    with that show ?thesis
      unfolding 3 by (simp add: autoScroll_def safeIndex_def scrollToPage_def min_def)
  qed
  have 5: "r_page (fst (load_session_part0 local_p mounted)) = ?q"
    by (simp add: load_session_part0_def Let_def initial_reader_part0_def)
  have 6: "snd (load_session_part0 local_p mounted)
     = restoreLastVisitedPage True (nq_page local_p) ?m mounted"
    by (simp add: load_session_part0_def Let_def)
  have 7: "snd (load_session_part0 local_p mounted) = Some ?q"
    if "mounted \<and> 0 \<le> ?q \<and> ?q < int ?m"
  proof -
    from that have "0 < ?m" by linarith
    with that show ?thesis
      unfolding 6 by (simp add: restoreLastVisitedPage_def safePage_def Let_def scrollToPage_def min_def)
  qed
  have 8: "restorePosition True None remote = RestoreDoc d (src_content src) (or0 (pos_page data))"
    if "lastPosition remote = Some data \<and> pos_docId data = Some d \<and> d \<noteq> [] \<and>
        map_of (sources remote) d = Some src"
    using that by (simp add: restorePosition_def)
  from 1 2 3 4 5 6 7 8 show ?thesis by blast
qed

theorem restore_source_witness:
  "snd (load_session
      \<lparr>novelQuestText = Some (concat (replicate 276 (str ''a ''))),
       novelQuestCurrentDocId = Some ''D'', novelQuestCurrentPage = Some 1\<rparr> True
      \<lparr>sources = [(''D'', \<lparr>src_content = concat (replicate 276 (str ''a '')),
                   src_name = str ''d.pdf''\<rparr>)],
       lastPosition = None\<rparr> True) = Some 1 \<and>
   snd (load_session_part0
      \<lparr>nq_text = Some (concat (replicate 276 (str ''a ''))),
       nq_doc_id = Some ''D'', nq_page = Some 1\<rparr> True) = Some 1 \<and>
   restorePosition True None
      \<lparr>sources = [(''D'', \<lparr>src_content = concat (replicate 276 (str ''a '')),
                   src_name = str ''d.pdf''\<rparr>)],
       lastPosition = Some \<lparr>pos_docId = Some ''D'', pos_page = Some 0\<rparr>\<rparr>
     = RestoreDoc ''D'' (concat (replicate 276 (str ''a ''))) 0"
proof -
  let ?t = "concat (replicate 276 (str ''a ''))"
  let ?src = "[(''D'', \<lparr>src_content = ?t, src_name = str ''d.pdf''\<rparr>)]"
  let ?local = "\<lparr>novelQuestText = Some ?t, novelQuestCurrentDocId = Some ''D'',
                 novelQuestCurrentPage = Some 1\<rparr>"
  let ?lq = "\<lparr>nq_text = Some ?t, nq_doc_id = Some ''D'', nq_page = Some 1\<rparr>"
  let ?remote = "\<lparr>sources = ?src, lastPosition = None\<rparr>"
  let ?remote2 = "\<lparr>sources = ?src, lastPosition = Some \<lparr>pos_docId = Some ''D'', pos_page = Some 0\<rparr>\<rparr>"
  have h1: "True \<and> 0 \<le> or0 (novelQuestCurrentPage ?local) \<and>
      or0 (novelQuestCurrentPage ?local) < int (length (getPages2 (r_text (initial_reader ?local))))"
    by (simp add: or0_def initial_reader_def pages_two)
  have h2: "True \<and> 0 \<le> or0 (nq_page ?lq) \<and>
      or0 (nq_page ?lq) < int (length (pages (r_text (initial_reader_part0 ?lq))))"
    by (simp add: or0_def initial_reader_part0_def pages_two)
  have h3: "lastPosition ?remote2 = Some \<lparr>pos_docId = Some ''D'', pos_page = Some 0\<rparr> \<and>
      pos_docId \<lparr>pos_docId = Some ''D'', pos_page = Some 0\<rparr> = Some ''D'' \<and> ''D'' \<noteq> [] \<and>
      map_of (sources ?remote2) ''D'' = Some \<lparr>src_content = ?t, src_name = str ''d.pdf''\<rparr>"
    by simp
  from restore_source [where local = ?local and signed_in = True and remote = ?remote
      and mounted = True] h1
  have a: "snd (load_session ?local True ?remote True) = Some (or0 (novelQuestCurrentPage ?local))"
    by blast
  from restore_source [where local_p = ?lq and mounted = True] h2
  have b: "snd (load_session_part0 ?lq True) = Some (or0 (nq_page ?lq))"
    by blast
  from restore_source [where remote = ?remote2
      and data = "\<lparr>pos_docId = Some ''D'', pos_page = Some 0\<rparr>" and d = "''D''"
      and src = "\<lparr>src_content = ?t, src_name = str ''d.pdf''\<rparr>"] h3
  have c: "restorePosition True None ?remote2
     = RestoreDoc ''D'' (src_content \<lparr>src_content = ?t, src_name = str ''d.pdf''\<rparr>)
         (or0 (pos_page \<lparr>pos_docId = Some ''D'', pos_page = Some 0\<rparr>))"
    by blast
  from a b c show ?thesis by (simp add: or0_def)
qed

theorem restore_source_counterexample:
  "length (getPages2 (concat (replicate 276 (str ''a '')))) = 2 \<and>
   load_session
      \<lparr>novelQuestText = Some (concat (replicate 276 (str ''a ''))),
       novelQuestCurrentDocId = Some ''D'', novelQuestCurrentPage = Some 1\<rparr> True
      \<lparr>sources = [(''D'', \<lparr>src_content = concat (replicate 276 (str ''a '')),
                   src_name = str ''d.pdf''\<rparr>)],
       lastPosition = Some \<lparr>pos_docId = Some ''D'', pos_page = Some 0\<rparr>\<rparr>
      (reader_shown2 False False)
     = (\<lparr>r_text = concat (replicate 276 (str ''a '')), r_docId = Some ''D'', r_page = 1\<rparr>, Some 1)"
proof -
  have "autoScroll 1 (length (getPages2 (concat (replicate 276 (str ''a ''))))) True = Some 1"
    unfolding pages_two by (simp add: autoScroll_def safeIndex_def scrollToPage_def)
  then show ?thesis
    by (simp add: pages_two load_session_def Let_def restoreSession_def initial_reader_def
        scroll_target_def or0_def reader_shown2_def)
qed

text \<open>
  C8 (as amended). A viewport update sets the current page to the index of a rendered
  page, which lies within \<open>[0, pageCount - 1]\<close>. The scroll on load, whenever one is
  made, goes to a page within \<open>[0, pageCount - 1]\<close> that is not beyond the current
  page: with the reader rendered and a current page that is not negative it goes to the
  smaller of the current page and the last page, and otherwise nothing is scrolled. The
  current page itself is not clamped: opening a document from the library replaces text
  and id and leaves the current page as it was, and when the current document is deleted,
  its text and id are cleared while the current page and the page kept in
  \<^verbatim>\<open>localStorage\<close> stay as they were (the counterexample below ends with page 1 of a
  one-page reader).
\<close>

theorem page_index_range:
  "(idx < length (getPages2 (r_text r)) \<longrightarrow>
      r_page (observe idx r) = int idx \<and> r_text (observe idx r) = r_text r \<and>
      0 \<le> r_page (observe idx r) \<and>
      r_page (observe idx r) \<le> int (length (getPages2 (r_text (observe idx r)))) - 1) \<and>
   (scroll_target r mounted = Some k \<longrightarrow>
      0 \<le> k \<and> k \<le> int (length (getPages2 (r_text r))) - 1 \<and> k \<le> r_page r) \<and>
   (mounted \<and> 0 \<le> r_page r \<longrightarrow>
      scroll_target r mounted = Some (min (r_page r) (int (length (getPages2 (r_text r))) - 1))) \<and>
   (\<not> mounted \<or> r_page r < 0 \<longrightarrow> scroll_target r mounted = None) \<and>
   loadFromLibrary d src r = \<lparr>r_text = src_content src, r_docId = Some d, r_page = r_page r\<rparr> \<and>
   (r_docId r = Some doc \<longrightarrow>
      deleteFromLibrary True True doc r = \<lparr>r_text = [], r_docId = None, r_page = r_page r\<rparr> \<and>
      novelQuestCurrentPage (persist (deleteFromLibrary True True doc r)) = Some (r_page r) \<and>
      novelQuestCurrentDocId (persist (deleteFromLibrary True True doc r)) = Some [])"
proof -
  let ?n = "length (getPages2 (r_text r))"
  have n: "0 < ?n" using getPages2_not_Nil [of "r_text r"] by simp
  have st: "scroll_target r mounted =
      (if mounted \<and> 0 \<le> r_page r then Some (min (r_page r) (int ?n - 1)) else None)"
    using n by (auto simp: scroll_target_def autoScroll_def safeIndex_def scrollToPage_def min_def)
  have 1: "idx < ?n \<Longrightarrow>
      r_page (observe idx r) = int idx \<and> r_text (observe idx r) = r_text r \<and>
      0 \<le> r_page (observe idx r) \<and>
      r_page (observe idx r) \<le> int (length (getPages2 (r_text (observe idx r)))) - 1"
    by (simp add: observe_def)
  have 2: "scroll_target r mounted = Some k \<Longrightarrow>
      0 \<le> k \<and> k \<le> int ?n - 1 \<and> k \<le> r_page r"
    unfolding st using n by (auto split: if_splits)
  have 3: "mounted \<and> 0 \<le> r_page r \<Longrightarrow>
      scroll_target r mounted = Some (min (r_page r) (int ?n - 1))"
    unfolding st by simp
  have 4: "\<not> mounted \<or> r_page r < 0 \<Longrightarrow> scroll_target r mounted = None"
    unfolding st by auto
  have 5: "loadFromLibrary d src r = \<lparr>r_text = src_content src, r_docId = Some d, r_page = r_page r\<rparr>"
    by (simp add: loadFromLibrary_def)
  have 6: "r_docId r = Some doc \<Longrightarrow>
      deleteFromLibrary True True doc r = \<lparr>r_text = [], r_docId = None, r_page = r_page r\<rparr> \<and>
      novelQuestCurrentPage (persist (deleteFromLibrary True True doc r)) = Some (r_page r) \<and>
      novelQuestCurrentDocId (persist (deleteFromLibrary True True doc r)) = Some []"
    by (simp add: deleteFromLibrary_def persist_def)
  from 1 2 3 4 5 6 show ?thesis by blast
qed

theorem page_index_range_witness:
  "length (getPages2 (r_text \<lparr>r_text = concat (replicate 276 (str ''a '')), r_docId = Some ''D'', r_page = 5\<rparr>)) = 2 \<and>
   observe 1 \<lparr>r_text = concat (replicate 276 (str ''a '')), r_docId = Some ''D'', r_page = 5\<rparr>
     = \<lparr>r_text = concat (replicate 276 (str ''a '')), r_docId = Some ''D'', r_page = 1\<rparr> \<and>
   scroll_target \<lparr>r_text = concat (replicate 276 (str ''a '')), r_docId = Some ''D'', r_page = 5\<rparr> True = Some 1 \<and>
   scroll_target \<lparr>r_text = concat (replicate 276 (str ''a '')), r_docId = Some ''D'', r_page = 5\<rparr> False = None \<and>
   loadFromLibrary ''E'' \<lparr>src_content = str ''one page'', src_name = str ''e.pdf''\<rparr>
      \<lparr>r_text = concat (replicate 276 (str ''a '')), r_docId = Some ''D'', r_page = 5\<rparr>
     = \<lparr>r_text = str ''one page'', r_docId = Some ''E'', r_page = 5\<rparr> \<and>
   deleteFromLibrary True True ''D''
      \<lparr>r_text = concat (replicate 276 (str ''a '')), r_docId = Some ''D'', r_page = 5\<rparr>
     = \<lparr>r_text = [], r_docId = None, r_page = 5\<rparr>"
proof -
  let ?r = "\<lparr>r_text = concat (replicate 276 (str ''a '')), r_docId = Some ''D'', r_page = 5\<rparr>"
  let ?e = "\<lparr>src_content = str ''one page'', src_name = str ''e.pdf''\<rparr>"
  have l: "length (getPages2 (r_text ?r)) = 2" by (simp add: pages_two)
  have h: "1 < length (getPages2 (r_text ?r))" "True \<and> 0 \<le> r_page ?r" "r_docId ?r = Some ''D''"
    "\<not> False \<or> r_page ?r < 0"
    by (simp_all add: pages_two)
  note th = page_index_range [where idx = 1 and r = ?r and doc = "''D''" and mounted = True
      and d = "''E''" and src = ?e]
  note th2 = page_index_range [where r = ?r and mounted = False]
  from th h(1) have o: "observe 1 ?r = \<lparr>r_text = concat (replicate 276 (str ''a '')), r_docId = Some ''D'', r_page = 1\<rparr>"
    by (simp add: observe_def)
  from th h(2) have "scroll_target ?r True = Some (min (r_page ?r) (int (length (getPages2 (r_text ?r))) - 1))"
    by blast
  then have s: "scroll_target ?r True = Some 1" unfolding l by simp
  from th2 h(4) have s2: "scroll_target ?r False = None" by blast
  from th have lf: "loadFromLibrary ''E'' ?e ?r = \<lparr>r_text = src_content ?e, r_docId = Some ''E'', r_page = r_page ?r\<rparr>"
    by blast
  from th h(3) have d: "deleteFromLibrary True True ''D'' ?r = \<lparr>r_text = [], r_docId = None, r_page = r_page ?r\<rparr>"
    by blast
  from l o s s2 lf d show ?thesis by simp
qed

theorem page_index_range_counterexample:
  "r_page (deleteFromLibrary True True ''D''
      (observe 1
        (loadFromLibrary ''D''
           \<lparr>src_content = concat (replicate 276 (str ''a '')), src_name = str ''d.pdf''\<rparr>
           (initial_reader
              \<lparr>novelQuestText = None, novelQuestCurrentDocId = None, novelQuestCurrentPage = None\<rparr>)))) = 1 \<and>
   length (getPages2 (r_text (deleteFromLibrary True True ''D''
      (observe 1
        (loadFromLibrary ''D''
           \<lparr>src_content = concat (replicate 276 (str ''a '')), src_name = str ''d.pdf''\<rparr>
           (initial_reader
              \<lparr>novelQuestText = None, novelQuestCurrentDocId = None, novelQuestCurrentPage = None\<rparr>)))))) = 1 \<and>
   novelQuestCurrentPage (persist (deleteFromLibrary True True ''D''
      (observe 1
        (loadFromLibrary ''D''
           \<lparr>src_content = concat (replicate 276 (str ''a '')), src_name = str ''d.pdf''\<rparr>
           (initial_reader
              \<lparr>novelQuestText = None, novelQuestCurrentDocId = None, novelQuestCurrentPage = None\<rparr>))))) = Some 1"
proof -
  let ?r1 = "loadFromLibrary ''D''
           \<lparr>src_content = concat (replicate 276 (str ''a '')), src_name = str ''d.pdf''\<rparr>
           (initial_reader
              \<lparr>novelQuestText = None, novelQuestCurrentDocId = None, novelQuestCurrentPage = None\<rparr>)"
  have r1: "?r1 = \<lparr>r_text = concat (replicate 276 (str ''a '')), r_docId = Some ''D'', r_page = 0\<rparr>"
    by (simp add: loadFromLibrary_def initial_reader_def or0_def)
  have r2: "observe 1 ?r1 = \<lparr>r_text = concat (replicate 276 (str ''a '')), r_docId = Some ''D'', r_page = 1\<rparr>"
    unfolding r1 by (simp add: observe_def pages_two)
  have r3: "deleteFromLibrary True True ''D'' (observe 1 ?r1) = \<lparr>r_text = [], r_docId = None, r_page = 1\<rparr>"
    unfolding r2 by (simp add: deleteFromLibrary_def)
  show ?thesis unfolding r3 by (simp add: pages_empty persist_def)
qed

end
